theory Spec2Isabelle
  imports Main "HOL-Library.Sublist" "HOL-Library.Multiset" "HOL-Library.AList"
    "HOL-Library.Char_ord" "HOL-Library.List_Lexorder"
begin

section \<open>q2galaxy.core.util: data model\<close>

text \<open>
  The module works on two kinds of data: Python scalars handed to the escape codec, and
  lxml element trees handed to \<^verbatim>\<open>OrderedTool\<close> and \<^verbatim>\<open>write_tool\<close>.

  A Python \<^verbatim>\<open>str\<close> is modelled as a \<open>string\<close> (a list of 8-bit characters, the UTF-8
  bytes of the text). Every pattern the module searches for is ASCII, and UTF-8 never uses
  an ASCII byte inside a multi-byte sequence, so replacing on bytes and replacing on code
  points agree; comparing byte lists lexicographically agrees with comparing code points.
\<close>

datatype error = ValueError | NotImplementedError

text \<open>
  The values \<^verbatim>\<open>galaxy_esc\<close> can receive. \<^verbatim>\<open>None\<close>, \<^verbatim>\<open>True\<close> and \<^verbatim>\<open>False\<close> are
  singletons in Python, so \<^verbatim>\<open>s is val\<close> against one of them holds exactly when \<open>s\<close> is that
  constructor; an \<^verbatim>\<open>int\<close> such as 1 is a different object from \<^verbatim>\<open>True\<close>.
\<close>

datatype pyval =
    PyNone
  | PyBool bool
  | PyStr string
  | PyInt int
  | PyList "pyval list"

text \<open>
  An lxml element as \<^verbatim>\<open>XMLNode\<close> builds it and \<^verbatim>\<open>_sorted_attrs\<close> copies it: a tag, the attributes in document order
  (names are unique per element), an optional text (\<open>etext\<close>, lxml's \<^verbatim>\<open>.text\<close>) and the child
  elements in order.
\<close>

datatype elem =
  Elem (tag: string) (attrib: "(string \<times> string) list") (etext: "string option")
       (children: "elem list")

section \<open>The escape codec\<close>

text \<open>
  \<^verbatim>\<open>str.replace(old, new)\<close>: every non-overlapping occurrence of \<open>old\<close>, found from the
  left, is replaced by \<open>new\<close>. With an empty \<open>old\<close> Python inserts \<open>new\<close> before every
  character and at the end.
\<close>

function py_replace :: "string \<Rightarrow> string \<Rightarrow> string \<Rightarrow> string" where
  "py_replace old new s =
     (if old = [] then new @ concat (map (\<lambda>c. c # new) s)
      else if s = [] then []
      else if prefix old s then new @ py_replace old new (drop (length old) s)
      else hd s # py_replace old new (tl s))"
  by pat_completeness auto
termination
  by (relation "measure (\<lambda>(old, new, s). length s)") auto

declare py_replace.simps [simp del]

definition escaped :: "(string \<times> string) list" where
  "escaped =
     [(''['', ''__ob__''),
      ('']'', ''__cb__''),
      (''>'', ''__gt__''),
      (''<'', ''__lt__''),
      ([CHR 0x27], ''__sq__''),
      ([CHR 0x22], ''__dq__''),
      (''{'', ''__oc__''),
      (''}'', ''__cc__''),
      (''@'', ''__at__''),
      ([CHR 0x0A], ''__cn__''),
      ([CHR 0x0D], ''__cr__''),
      ([CHR 0x09], ''__tc__''),
      (''#'', ''__pd__''),
      ('','', ''__comma__'')]"

definition mapped :: "(pyval \<times> string) list" where
  "mapped =
     [(PyNone, ''__q2galaxy__::literal::None''),
      (PyBool True, ''__q2galaxy__::literal::True''),
      (PyBool False, ''__q2galaxy__::literal::False'')]"

text \<open>The loop \<^verbatim>\<open>for val, esc in _mapped: if s is val: return esc\<close>; falling out of it
  reaches \<^verbatim>\<open>raise NotImplementedError\<close>.\<close>

fun esc_mapped :: "(pyval \<times> string) list \<Rightarrow> pyval \<Rightarrow> error + string" where
  "esc_mapped [] s = Inl NotImplementedError"
| "esc_mapped ((val, esc) # rest) s = (if s = val then Inr esc else esc_mapped rest s)"

fun galaxy_esc :: "pyval \<Rightarrow> error + string" where
  "galaxy_esc (PyStr s) = Inr (fold (\<lambda>(char, esc) s. py_replace char esc s) escaped s)"
| "galaxy_esc v = esc_mapped mapped v"

text \<open>The loop \<^verbatim>\<open>for val, esc in _mapped: if esc == s: return val\<close>.\<close>

fun unesc_mapped :: "(pyval \<times> string) list \<Rightarrow> string \<Rightarrow> pyval option" where
  "unesc_mapped [] s = None"
| "unesc_mapped ((val, esc) # rest) s = (if esc = s then Some val else unesc_mapped rest s)"

definition galaxy_unesc :: "string \<Rightarrow> pyval" where
  "galaxy_unesc s =
     (case unesc_mapped mapped s of
        Some val \<Rightarrow> val
      | None \<Rightarrow> PyStr (fold (\<lambda>(char, esc) s. py_replace esc char s) escaped s))"

section \<open>The canonical ordering engine\<close>

definition OrderedTool_order :: "string list" where
  "OrderedTool_order =
     [''description'', ''macros'', ''edam_topics'', ''edam_operations'',
      ''parallelism'', ''requirements'', ''code'', ''stdio'', ''version_command'',
      ''command'', ''environment_variables'', ''configfiles'', ''inputs'',
      ''request_param_translation'', ''outputs'', ''tests'', ''help'',
      ''citations'']"

definition OrderedTool_order_attr :: "string list" where
  "OrderedTool_order_attr =
     [''name'', ''argument'', ''type'', ''format'', ''min'', ''truevalue'',
      ''max'', ''falsevalue'', ''value'', ''checked'', ''optional'', ''label'',
      ''help'']"

definition OrderedTool_order_attr_set :: "string set" where
  "OrderedTool_order_attr_set = set OrderedTool_order_attr"

text \<open>\<^verbatim>\<open>list.index(x)\<close>: the position of the first element equal to \<open>x\<close>, or
  \<^verbatim>\<open>ValueError\<close> when there is none.\<close>

fun py_index :: "'a list \<Rightarrow> 'a \<Rightarrow> error + nat" where
  "py_index [] x = Inl ValueError"
| "py_index (y # ys) x =
     (if y = x then Inr 0
      else case py_index ys x of Inl e \<Rightarrow> Inl e | Inr i \<Rightarrow> Inr (Suc i))"

text \<open>Running a fallible function over a list, stopping at the first error.\<close>

fun sum_mapM :: "('a \<Rightarrow> error + 'b) \<Rightarrow> 'a list \<Rightarrow> error + 'b list" where
  "sum_mapM f [] = Inr []"
| "sum_mapM f (x # xs) =
     (case f x of
        Inl e \<Rightarrow> Inl e
      | Inr y \<Rightarrow> (case sum_mapM f xs of Inl e \<Rightarrow> Inl e | Inr ys \<Rightarrow> Inr (y # ys)))"

lemma sum_mapM_cong [fundef_cong]:
  "xs = ys \<Longrightarrow> (\<And>x. x \<in> set ys \<Longrightarrow> f x = g x) \<Longrightarrow> sum_mapM f xs = sum_mapM g ys"
  by (induction ys arbitrary: xs) (auto split: sum.splits)

text \<open>
  \<^verbatim>\<open>sorted(xs, key=key)\<close> and \<^verbatim>\<open>xs.sort(key=key)\<close>: the key of every element is computed
  first, in order (an exception raised by the key function propagates), then the elements
  are sorted by key with a stable sort.
\<close>

definition py_sorted :: "('a \<Rightarrow> error + 'k::linorder) \<Rightarrow> 'a list \<Rightarrow> error + 'a list" where
  "py_sorted key xs =
     (case sum_mapM key xs of
        Inl e \<Rightarrow> Inl e
      | Inr ks \<Rightarrow> Inr (map snd (sort_key fst (zip ks xs))))"

text \<open>
  \<^verbatim>\<open>OrderedDict(items)\<close>: the pairs are inserted from the left; a key already present keeps
  its position and takes the new value.
\<close>

definition OrderedDict :: "('k \<times> 'v) list \<Rightarrow> ('k \<times> 'v) list" where
  "OrderedDict items = fold (\<lambda>(k, v) d. AList.update k v d) items []"

definition OrderedTool_init :: "(string \<times> string) list \<Rightarrow> error + (string \<times> string) list" where
  "OrderedTool_init items =
     (let (order_items, remaining_items) =
            partition (\<lambda>item. fst item \<in> OrderedTool_order_attr_set) items
      in case py_sorted (\<lambda>x. py_index OrderedTool_order_attr (fst x)) order_items of
           Inl e \<Rightarrow> Inl e
         | Inr order_items \<Rightarrow>
             (case py_sorted (\<lambda>x. Inr (fst x)) remaining_items of
                Inl e \<Rightarrow> Inl e
              | Inr remaining_items \<Rightarrow> Inr (OrderedDict (order_items @ remaining_items))))"

fun OrderedTool_sorted_attrs :: "elem \<Rightarrow> error + elem" where
  "OrderedTool_sorted_attrs (Elem t a tx cs) =
     (case OrderedTool_init a of
        Inl e \<Rightarrow> Inl e
      | Inr a' \<Rightarrow>
          (case sum_mapM OrderedTool_sorted_attrs cs of
             Inl e \<Rightarrow> Inl e
           | Inr cs' \<Rightarrow> Inr (Elem t a' tx cs')))"

definition OrderedTool_sorted :: "elem \<Rightarrow> error + elem" where
  "OrderedTool_sorted e =
     (case OrderedTool_sorted_attrs e of
        Inl err \<Rightarrow> Inl err
      | Inr new \<Rightarrow>
          (case py_sorted (\<lambda>x. py_index OrderedTool_order (tag x)) (children new) of
             Inl err \<Rightarrow> Inl err
           | Inr cs \<Rightarrow> Inr (Elem (tag new) (attrib new) (etext new) cs)))"

section \<open>The document assembler\<close>














section \<open>Notions used to state the properties\<close>

text \<open>The characters the codec escapes, the inner names of their tokens (\<open>ob\<close>, \<open>cb\<close>,
  ...) and the three sentinel tokens, read off the two tables.\<close>

definition escaped_chars :: "char list" where
  "escaped_chars = concat (map fst escaped)"

definition token_names :: "string list" where
  "token_names = map (\<lambda>(char, esc). take (length esc - 4) (drop 2 esc)) escaped"

definition sentinel_tokens :: "string list" where
  "sentinel_tokens = map snd mapped"


text \<open>The trees lxml can hold: attribute names are unique within each element.\<close>

fun wf_elem :: "elem \<Rightarrow> bool" where
  "wf_elem (Elem t a tx cs) = (distinct (map fst a) \<and> (\<forall>c \<in> set cs. wf_elem c))"

text \<open>
  The attribute order as the specification words it: the attributes whose names are in the
  priority list, in the order of that list, then the others sorted by name.
\<close>

definition priority_group :: "(string \<times> string) list \<Rightarrow> (string \<times> string) list" where
  "priority_group attrs =
     concat (map (\<lambda>n. filter (\<lambda>a. fst a = n) attrs) OrderedTool_order_attr)"

definition remainder_group :: "(string \<times> string) list \<Rightarrow> (string \<times> string) list" where
  "remainder_group attrs =
     sort_key fst (filter (\<lambda>a. fst a \<notin> set OrderedTool_order_attr) attrs)"

definition spec_attr_order :: "(string \<times> string) list \<Rightarrow> (string \<times> string) list" where
  "spec_attr_order attrs = priority_group attrs @ remainder_group attrs"

text \<open>The specified attribute order at every node of a tree, nothing else touched.\<close>

fun spec_attrs_everywhere :: "elem \<Rightarrow> elem" where
  "spec_attrs_everywhere (Elem t a tx cs) =
     Elem t (spec_attr_order a) tx (map spec_attrs_everywhere cs)"

text \<open>The position of the first occurrence of an element in a list (the length of the
  list when there is none); the position of a tag in the tag-priority list and of an
  attribute name in the attribute-priority list.\<close>

definition list_rank :: "'a list \<Rightarrow> 'a \<Rightarrow> nat" where
  "list_rank xs x = length (takeWhile (\<lambda>y. y \<noteq> x) xs)"

definition tag_rank :: "elem \<Rightarrow> nat" where
  "tag_rank e = list_rank OrderedTool_order (tag e)"

definition attr_rank :: "string \<times> string \<Rightarrow> nat" where
  "attr_rank a = list_rank OrderedTool_order_attr (fst a)"

text \<open>A tree with every attribute removed: what is left is the tags, the texts and the
  order of the children at every level.\<close>

fun erase_attrs :: "elem \<Rightarrow> elem" where
  "erase_attrs (Elem t a tx cs) = Elem t [] tx (map erase_attrs cs)"

text \<open>Two trees with the same tag, text and attribute name/value pairs (as many of them,
  and the same ones) at every node, and the children of every node pairwise so related, in
  the same order.\<close>

fun same_content :: "elem \<Rightarrow> elem \<Rightarrow> bool" where
  "same_content (Elem t a tx cs) (Elem t' a' tx' cs') =
     (t = t' \<and> tx = tx' \<and> set a = set a' \<and> length a = length a'
      \<and> list_all2 same_content cs cs')"

section \<open>The codec, one character at a time\<close>

text \<open>
  Every token of the table has the form \<open>__name__\<close>. The table of characters and names,
  the token of a name, the image of one character under a table, and the image of a string:
  these describe what the fourteen successive replacements of \<^verbatim>\<open>galaxy_esc\<close> compute.
\<close>

definition name_tab :: "(char \<times> string) list" where
  "name_tab = zip escaped_chars token_names"

definition token_of :: "string \<Rightarrow> string" where
  "token_of n = ''__'' @ n @ ''__''"

definition esc_char :: "(char \<times> string) list \<Rightarrow> char \<Rightarrow> string" where
  "esc_char NT x = (case map_of NT x of Some n \<Rightarrow> token_of n | None \<Rightarrow> [x])"

definition esc_all :: "(char \<times> string) list \<Rightarrow> string \<Rightarrow> string" where
  "esc_all NT s = concat (map (esc_char NT) s)"

definition tokens_avoid_chars :: "(char \<times> string) list \<Rightarrow> bool" where
  "tokens_avoid_chars NT = (distinct (map fst NT) \<and> (\<forall>c \<in> fst ` set NT. c \<noteq> CHR ''_'' \<and> (\<forall>n \<in> snd ` set NT. c \<notin> set n)))"


section \<open>The ordering engine as total functions\<close>

text \<open>What \<^verbatim>\<open>OrderedTool.__init__\<close> computes when no lookup fails: the two sorted groups.\<close>

definition code_attr_order :: "(string \<times> string) list \<Rightarrow> (string \<times> string) list" where
  "code_attr_order items =
     sort_key attr_rank (filter (\<lambda>a. fst a \<in> set OrderedTool_order_attr) items)
     @ sort_key fst (filter (\<lambda>a. fst a \<notin> set OrderedTool_order_attr) items)"

section \<open>The escape codec: replacement lemmas\<close>

lemma py_replace_Nil: "old \<noteq> [] \<Longrightarrow> py_replace old new [] = []"
  by (subst py_replace.simps) simp

lemma py_replace_hit: "old \<noteq> [] \<Longrightarrow> py_replace old new (old @ r) = new @ py_replace old new r"
  by (subst py_replace.simps) simp

lemma py_replace_miss:
  "old \<noteq> [] \<Longrightarrow> \<not> prefix old (x # r) \<Longrightarrow> py_replace old new (x # r) = x # py_replace old new r"
  by (subst py_replace.simps) simp

lemma py_replace_char:
  "py_replace [c] t s = concat (map (\<lambda>x. if x = c then t else [x]) s)"
proof (induction s)
  case Nil
  show ?case by (simp add: py_replace_Nil)
next
  case (Cons x xs)
  show ?case
  proof (cases "x = c")
    case True
    have "py_replace [c] t ([c] @ xs) = t @ py_replace [c] t xs"
      by (rule py_replace_hit) simp
    with True Cons show ?thesis by simp
  next
    case False
    then have "py_replace [c] t (x # xs) = x # py_replace [c] t xs"
      by (intro py_replace_miss) auto
    with False Cons show ?thesis by simp
  qed
qed

lemma esc_all_Nil [simp]: "esc_all NT [] = []"
  by (simp add: esc_all_def)

lemma esc_all_Cons: "esc_all NT (x # xs) = esc_char NT x @ esc_all NT xs"
  by (simp add: esc_all_def)

lemma esc_all_append: "esc_all NT (xs @ ys) = esc_all NT xs @ esc_all NT ys"
  by (simp add: esc_all_def)

lemma esc_all_empty_tab [simp]: "esc_all [] s = s"
  by (induction s) (simp_all add: esc_all_Cons esc_char_def)

lemma concat_map_single_id: "c \<notin> set u \<Longrightarrow> concat (map (\<lambda>y. if y = c then t else [y]) u) = u"
  by (induction u) auto

lemma concat_map_concat_map:
  "concat (map g (concat (map f s))) = concat (map (\<lambda>x. concat (map g (f x))) s)"
  by (induction s) simp_all

lemma esc_step:
  assumes "c \<notin> fst ` set P" and "c \<noteq> CHR ''_''" and "\<forall>m \<in> snd ` set P. c \<notin> set m"
  shows "py_replace [c] (token_of n) (esc_all P s) = esc_all (P @ [(c, n)]) s"
proof -
  have "concat (map (\<lambda>y. if y = c then token_of n else [y]) (esc_char P x)) = esc_char (P @ [(c, n)]) x" for x
  proof (cases "map_of P x")
    case None
    then show ?thesis by (simp add: esc_char_def map_add_def)
  next
    case (Some m)
    then have "m \<in> snd ` set P" by (metis map_of_SomeD snd_conv image_eqI)
    with assms have "c \<notin> set (token_of m)" by (auto simp: token_of_def)
    then have "concat (map (\<lambda>y. if y = c then token_of n else [y]) (token_of m)) = token_of m"
      by (rule concat_map_single_id)
    with Some show ?thesis by (simp add: esc_char_def map_add_def)
  qed
  then show ?thesis
    by (simp add: py_replace_char esc_all_def concat_map_concat_map)
qed

lemma esc_fold:
  "tokens_avoid_chars (P @ T) \<Longrightarrow>
   fold (\<lambda>(c, n) s. py_replace [c] (token_of n) s) T (esc_all P s) = esc_all (P @ T) s"
proof (induction T arbitrary: P)
  case Nil
  show ?case by simp
next
  case (Cons a T)
  obtain c n where a: "a = (c, n)" by (cases a)
  from Cons.prems have "c \<notin> fst ` set P" "c \<noteq> CHR ''_''" "\<forall>m \<in> snd ` set P. c \<notin> set m"
    by (auto simp: tokens_avoid_chars_def a)
  then have step: "py_replace [c] (token_of n) (esc_all P s) = esc_all (P @ [(c, n)]) s"
    by (rule esc_step)
  from Cons.prems have "tokens_avoid_chars ((P @ [(c, n)]) @ T)" by (simp add: a)
  from Cons.IH [OF this] step show ?case by (simp add: a)
qed

lemma escaped_name_tab: "escaped = map (\<lambda>(c, n). ([c], token_of n)) name_tab"
  by (simp add: escaped_def name_tab_def escaped_chars_def token_names_def token_of_def)

lemma name_tab_eq:
  "name_tab =
     [(CHR ''['', ''ob''), (CHR '']'', ''cb''), (CHR ''>'', ''gt''), (CHR ''<'', ''lt''),
      (CHR 0x27, ''sq''), (CHR 0x22, ''dq''), (CHR ''{'', ''oc''), (CHR ''}'', ''cc''),
      (CHR ''@'', ''at''), (CHR 0x0A, ''cn''), (CHR 0x0D, ''cr''), (CHR 0x09, ''tc''),
      (CHR ''#'', ''pd''), (CHR '','', ''comma'')]"
  by (simp add: escaped_def name_tab_def escaped_chars_def token_names_def)

lemma tokens_avoid_chars_name_tab: "tokens_avoid_chars name_tab"
  by (simp add: tokens_avoid_chars_def name_tab_eq)

lemma galaxy_esc_esc_all: "galaxy_esc (PyStr s) = Inr (esc_all name_tab s)"
proof -
  have "fold (\<lambda>(char, esc) s. py_replace char esc s) escaped s
        = fold (\<lambda>(c, n) s. py_replace [c] (token_of n) s) name_tab (esc_all [] s)"
    by (simp add: escaped_name_tab fold_map comp_def case_prod_unfold)
  also have "\<dots> = esc_all ([] @ name_tab) s"
    by (rule esc_fold) (simp add: tokens_avoid_chars_name_tab)
  finally show ?thesis by simp
qed

lemma sublist_esc_char_esc_all:
  "x \<in> set s \<Longrightarrow> sublist (esc_char NT x) (esc_all NT s)"
proof -
  assume "x \<in> set s"
  then obtain a b where "s = a @ x # b" by (meson split_list)
  then have "esc_all NT s = esc_all NT a @ esc_char NT x @ esc_all NT b"
    by (simp add: esc_all_append esc_all_Cons)
  then show ?thesis by (simp add: sublist_appendI)
qed

lemma esc_all_plain: "\<forall>x \<in> set s. map_of NT x = None \<Longrightarrow> esc_all NT s = s"
  by (induction s) (simp_all add: esc_all_Cons esc_char_def)

lemma sentinel_no_token:
  "z \<in> set sentinel_tokens \<Longrightarrow> n \<in> snd ` set name_tab \<Longrightarrow> \<not> sublist (token_of n) z"
  by (auto simp: sentinel_tokens_def mapped_def name_tab_eq token_of_def sublist_code)

lemma esc_all_sentinel:
  assumes "esc_all name_tab s \<in> set sentinel_tokens"
  shows "esc_all name_tab s = s"
proof (rule esc_all_plain, rule ballI)
  fix x assume x: "x \<in> set s"
  show "map_of name_tab x = None"
  proof (cases "map_of name_tab x")
    case None then show ?thesis .
  next
    case (Some n)
    then have "n \<in> snd ` set name_tab" by (metis map_of_SomeD snd_conv image_eqI)
    moreover have "sublist (token_of n) (esc_all name_tab s)"
      using sublist_esc_char_esc_all [OF x, of name_tab] Some by (simp add: esc_char_def)
    ultimately show ?thesis using sentinel_no_token assms by blast
  qed
qed
















section \<open>The ordering engine: sorting lemmas\<close>

lemma py_index_eq:
  "py_index xs x = (if x \<in> set xs then Inr (list_rank xs x) else Inl ValueError)"
  by (induction xs) (auto simp: list_rank_def)

lemma sum_mapM_Inr:
  "\<forall>x \<in> set xs. f x = Inr (g x) \<Longrightarrow> sum_mapM f xs = Inr (map g xs)"
  by (induction xs) simp_all

lemma sum_mapM_Inl:
  "\<exists>x \<in> set xs. f x = Inl e \<Longrightarrow> \<forall>y e'. f y = Inl e' \<longrightarrow> e' = e \<Longrightarrow> sum_mapM f xs = Inl e"
proof (induction xs)
  case Nil
  then show ?case by simp
next
  case (Cons a xs)
  show ?case
  proof (cases "f a")
    case (Inl e')
    with Cons.prems(2) have "e' = e" by blast
    with Inl show ?thesis by simp
  next
    case (Inr b)
    with Cons.prems(1) have "\<exists>x \<in> set xs. f x = Inl e" by auto
    from Cons.IH [OF this Cons.prems(2)] Inr show ?thesis by simp
  qed
qed

lemma insort_key_decorated:
  "insort_key fst (g x, x) (map (\<lambda>x. (g x, x)) ys) = map (\<lambda>x. (g x, x)) (insort_key g x ys)"
  by (induction ys) simp_all

lemma sort_key_decorated:
  "sort_key fst (map (\<lambda>x. (g x, x)) xs) = map (\<lambda>x. (g x, x)) (sort_key g xs)"
  by (induction xs) (simp_all add: insort_key_decorated)

lemma zip_map_self: "zip (map g xs) xs = map (\<lambda>x. (g x, x)) xs"
  by (induction xs) simp_all

lemma py_sorted_Inr:
  assumes "\<forall>x \<in> set xs. key x = Inr (g x)"
  shows "py_sorted key xs = Inr (sort_key g xs)"
proof -
  have "sum_mapM key xs = Inr (map g xs)" using assms by (rule sum_mapM_Inr)
  then show ?thesis
    by (simp add: py_sorted_def zip_map_self sort_key_decorated comp_def)
qed

lemma py_sorted_Inl:
  "\<exists>x \<in> set xs. key x = Inl e \<Longrightarrow> \<forall>y e'. key y = Inl e' \<longrightarrow> e' = e \<Longrightarrow> py_sorted key xs = Inl e"
  by (simp add: py_sorted_def sum_mapM_Inl)

lemma update_fresh: "k \<notin> fst ` set d \<Longrightarrow> AList.update k v d = d @ [(k, v)]"
  by (induction d) auto

lemma fold_update_distinct:
  "distinct (map fst (d @ xs)) \<Longrightarrow> fold (\<lambda>(k, v) d. AList.update k v d) xs d = d @ xs"
proof (induction xs arbitrary: d)
  case Nil
  show ?case by simp
next
  case (Cons a xs)
  obtain k v where a: "a = (k, v)" by (cases a)
  from Cons.prems have "k \<notin> fst ` set d" by (auto simp: a)
  then have "AList.update k v d = d @ [(k, v)]" by (rule update_fresh)
  moreover from Cons.prems have "distinct (map fst ((d @ [(k, v)]) @ xs))" by (simp add: a)
  ultimately show ?case using Cons.IH [of "d @ [(k, v)]"] by (simp add: a)
qed

lemma OrderedDict_distinct: "distinct (map fst xs) \<Longrightarrow> OrderedDict xs = xs"
  using fold_update_distinct [of "[]" xs] by (simp add: OrderedDict_def)

lemma OrderedTool_init_eq: "OrderedTool_init items = Inr (OrderedDict (code_attr_order items))"
proof -
  have 1: "py_sorted (\<lambda>x. py_index OrderedTool_order_attr (fst x))
             (filter (\<lambda>a. fst a \<in> set OrderedTool_order_attr) items)
           = Inr (sort_key attr_rank (filter (\<lambda>a. fst a \<in> set OrderedTool_order_attr) items))"
    by (rule py_sorted_Inr) (simp add: py_index_eq attr_rank_def)
  have 2: "py_sorted (\<lambda>x. Inr (fst x)) (filter (\<lambda>a. fst a \<notin> set OrderedTool_order_attr) items)
           = Inr (sort_key fst (filter (\<lambda>a. fst a \<notin> set OrderedTool_order_attr) items))"
    by (rule py_sorted_Inr) simp
  show ?thesis
    using 1 2
    by (simp add: OrderedTool_init_def OrderedTool_order_attr_set_def code_attr_order_def comp_def)
qed

lemma mset_code_attr_order: "mset (code_attr_order items) = mset items"
  by (simp add: code_attr_order_def) 

lemma distinct_code_attr_order:
  assumes "distinct (map fst items)"
  shows "distinct (map fst (code_attr_order items))"
proof -
  have "mset (map fst (code_attr_order items)) = mset (map fst items)"
    by (simp add: mset_code_attr_order)
  with assms show ?thesis
    by (metis mset_eq_imp_distinct_iff)
qed

lemma OrderedTool_init_distinct:
  "distinct (map fst items) \<Longrightarrow> OrderedTool_init items = Inr (code_attr_order items)"
  by (simp add: OrderedTool_init_eq OrderedDict_distinct distinct_code_attr_order)

lemma list_rank_append:
  "x \<notin> set A \<Longrightarrow> list_rank (A @ B) x = length A + list_rank B x"
  by (induction A) (auto simp: list_rank_def)

lemma list_rank_hd [simp]: "list_rank (x # B) x = 0"
  by (simp add: list_rank_def)

lemma list_rank_inj:
  assumes "a \<in> set L" "list_rank L a = list_rank L b"
  shows "a = b"
  using assms
proof (induction L)
  case Nil
  then show ?case by simp
next
  case (Cons x L)
  then show ?case by (auto simp: list_rank_def split: if_splits)
qed

lemma mset_buckets:
  "distinct L \<Longrightarrow>
   mset (concat (map (\<lambda>n. filter (\<lambda>a. k a = n) xs) L)) = mset (filter (\<lambda>a. k a \<in> set L) xs)"
proof (induction L)
  case Nil
  show ?case by simp
next
  case (Cons n L)
  then have n: "n \<notin> set L" and d: "distinct L" by auto
  have "mset (filter (\<lambda>a. k a = n) xs) + mset (filter (\<lambda>a. k a \<in> set L) xs)
        = mset (filter (\<lambda>a. k a = n \<or> k a \<in> set L) xs)"
    using n by (induction xs) auto
  with Cons.IH [OF d] show ?case by simp
qed

lemma filter_buckets:
  "distinct L \<Longrightarrow>
   filter (\<lambda>a. k a = n0) (concat (map (\<lambda>n. filter (\<lambda>a. k a = n) xs) L))
   = (if n0 \<in> set L then filter (\<lambda>a. k a = n0) xs else [])"
proof (induction L)
  case Nil
  show ?case by simp
next
  case (Cons n L)
  then have n: "n \<notin> set L" and d: "distinct L" by auto
  have "filter (\<lambda>a. k a = n0) (filter (\<lambda>a. k a = n) xs)
        = (if n = n0 then filter (\<lambda>a. k a = n0) xs else [])"
    by (induction xs) auto
  with Cons.IH [OF d] n show ?case by auto
qed

lemma sorted_buckets:
  "distinct (A @ B) \<Longrightarrow>
   sorted (map (\<lambda>a. list_rank (A @ B) (k a)) (concat (map (\<lambda>n. filter (\<lambda>a. k a = n) xs) B)))
   \<and> (\<forall>a \<in> set (concat (map (\<lambda>n. filter (\<lambda>a. k a = n) xs) B)).
        length A \<le> list_rank (A @ B) (k a))"
proof (induction B arbitrary: A)
  case Nil
  show ?case by simp
next
  case (Cons n B)
  let ?r = "\<lambda>a. list_rank (A @ n # B) (k a)"
  let ?bucket = "filter (\<lambda>a. k a = n) xs"
  let ?rest = "concat (map (\<lambda>n. filter (\<lambda>a. k a = n) xs) B)"
  from Cons.prems have d: "distinct ((A @ [n]) @ B)" and nA: "n \<notin> set A" by auto
  have eq: "(A @ [n]) @ B = A @ n # B" by simp
  from Cons.IH [OF d] have s_rest: "sorted (map ?r ?rest)"
    and ge_rest: "\<forall>a \<in> set ?rest. Suc (length A) \<le> ?r a"
    by (simp_all only: eq length_append list.size, simp_all)
  have rn: "list_rank (A @ n # B) n = length A"
    using nA by (simp add: list_rank_append)
  have bk: "\<forall>a \<in> set ?bucket. ?r a = length A"
    using rn by simp
  have s_bucket: "sorted (map ?r ?bucket)"
  proof -
    have "map ?r ?bucket = replicate (length ?bucket) (length A)"
      using bk by (simp add: map_replicate_const [symmetric] cong: map_cong)
    then show ?thesis by (simp add: sorted_replicate)
  qed
  have cross: "\<forall>x \<in> set ?bucket. \<forall>y \<in> set ?rest. ?r x \<le> ?r y"
  proof (intro ballI)
    fix x y assume "x \<in> set ?bucket" "y \<in> set ?rest"
    with bk ge_rest have "?r x = length A" "Suc (length A) \<le> ?r y" by blast+
    then show "?r x \<le> ?r y" by simp
  qed
  have ge_all: "\<forall>a \<in> set (?bucket @ ?rest). length A \<le> ?r a"
  proof
    fix a assume "a \<in> set (?bucket @ ?rest)"
    then consider "a \<in> set ?bucket" | "a \<in> set ?rest" by auto
    then show "length A \<le> ?r a"
    proof cases
      case 1 with bk have "?r a = length A" by blast
      then show ?thesis by simp
    next
      case 2 with ge_rest have "Suc (length A) \<le> ?r a" by blast
      then show ?thesis by simp
    qed
  qed
  have "concat (map (\<lambda>n. filter (\<lambda>a. k a = n) xs) (n # B)) = ?bucket @ ?rest" by simp
  moreover have "sorted (map ?r (?bucket @ ?rest))"
    using s_bucket s_rest cross by (simp add: sorted_append)
  ultimately show ?case using ge_all by (simp only:) 
qed

lemma sort_key_buckets:
  assumes L: "distinct L" and xs: "\<forall>a \<in> set xs. k a \<in> set L"
  shows "sort_key (\<lambda>a. list_rank L (k a)) xs = concat (map (\<lambda>n. filter (\<lambda>a. k a = n) xs) L)"
proof (rule properties_for_sort_key)
  let ?ys = "concat (map (\<lambda>n. filter (\<lambda>a. k a = n) xs) L)"
  have "filter (\<lambda>a. k a \<in> set L) xs = xs" using xs by (simp add: filter_id_conv)
  then show "mset ?ys = mset xs" using mset_buckets [OF L, of k xs] by simp
  show "sorted (map (\<lambda>a. list_rank L (k a)) ?ys)"
    using sorted_buckets [of "[]" L k xs] L by simp
  fix b assume "b \<in> set ?ys"
  then have b: "k b \<in> set L" by auto
  have "(\<lambda>x. list_rank L (k b) = list_rank L (k x)) = (\<lambda>x. k x = k b)"
    using list_rank_inj [OF b] by auto
  moreover have "filter (\<lambda>x. k x = k b) ?ys = filter (\<lambda>x. k x = k b) xs"
    using filter_buckets [OF L, of k "k b" xs] b by simp
  ultimately show "filter (\<lambda>x. list_rank L (k b) = list_rank L (k x)) ?ys
                   = filter (\<lambda>x. list_rank L (k b) = list_rank L (k x)) xs"
    by simp
qed

lemma distinct_order_attr: "distinct OrderedTool_order_attr"
  by (simp add: OrderedTool_order_attr_def)

lemma priority_group_filter:
  "priority_group (filter (\<lambda>a. fst a \<in> set OrderedTool_order_attr) items) = priority_group items"
proof -
  have "filter (\<lambda>a. fst a = n) (filter (\<lambda>a. fst a \<in> set OrderedTool_order_attr) items)
        = filter (\<lambda>a. fst a = n) items" if "n \<in> set OrderedTool_order_attr" for n
    using that by (induction items) auto
  then show ?thesis by (simp add: priority_group_def cong: map_cong)
qed

lemma code_attr_order_spec: "code_attr_order items = spec_attr_order items"
proof -
  let ?F = "filter (\<lambda>a. fst a \<in> set OrderedTool_order_attr) items"
  have "sort_key (\<lambda>a. list_rank OrderedTool_order_attr (fst a)) ?F
        = concat (map (\<lambda>n. filter (\<lambda>a. fst a = n) ?F) OrderedTool_order_attr)"
    by (rule sort_key_buckets [OF distinct_order_attr]) simp
  then have "sort_key attr_rank ?F = priority_group ?F"
    unfolding priority_group_def attr_rank_def [abs_def] .
  then show ?thesis
    by (simp add: code_attr_order_def spec_attr_order_def remainder_group_def priority_group_filter)
qed

lemma OrderedTool_init_spec:
  "distinct (map fst items) \<Longrightarrow> OrderedTool_init items = Inr (spec_attr_order items)"
  by (simp add: OrderedTool_init_distinct code_attr_order_spec)

lemma sum_mapM_rel:
  "\<forall>x \<in> set xs. \<exists>y. f x = Inr y \<and> R x y \<Longrightarrow> \<exists>ys. sum_mapM f xs = Inr ys \<and> list_all2 R xs ys"
proof (induction xs)
  case Nil
  show ?case by simp
next
  case (Cons x xs)
  then obtain y where y: "f x = Inr y" "R x y" by auto
  from Cons obtain ys where ys: "sum_mapM f xs = Inr ys" "list_all2 R xs ys" by auto
  from y ys show ?case by simp
qed

lemma erase_attrs_sel:
  "erase_attrs a = erase_attrs b \<Longrightarrow>
   tag a = tag b \<and> etext a = etext b
   \<and> map erase_attrs (children a) = map erase_attrs (children b)"
  by (cases a; cases b) simp

lemma erase_attrs_tag: "erase_attrs a = erase_attrs b \<Longrightarrow> tag a = tag b"
  by (cases a; cases b) simp

lemma tag_erase_attrs [simp]: "tag (erase_attrs e) = tag e"
  by (cases e) simp

lemma map_erase_tags:
  assumes "map erase_attrs xs = map erase_attrs ys"
  shows "map tag xs = map tag ys"
proof -
  have "map tag xs = map tag (map erase_attrs xs)" by simp
  also have "\<dots> = map tag (map erase_attrs ys)" by (simp only: assms)
  also have "\<dots> = map tag ys" by simp
  finally show ?thesis .
qed

lemma sorted_attrs_total:
  "\<exists>e'. OrderedTool_sorted_attrs e = Inr e' \<and> erase_attrs e' = erase_attrs e"
proof (induction e)
  case (Elem t a tx cs)
  then have "\<forall>c \<in> set cs. \<exists>c'. OrderedTool_sorted_attrs c = Inr c' \<and> erase_attrs c' = erase_attrs c"
    by blast
  then obtain cs' where cs': "sum_mapM OrderedTool_sorted_attrs cs = Inr cs'"
      "list_all2 (\<lambda>c c'. erase_attrs c' = erase_attrs c) cs cs'"
    using sum_mapM_rel [of cs OrderedTool_sorted_attrs "\<lambda>c c'. erase_attrs c' = erase_attrs c"]
    by blast
  from cs'(2) have "map erase_attrs cs' = map erase_attrs cs"
    by (induction cs cs' rule: list_all2_induct) simp_all
  with cs'(1) show ?case by (simp add: OrderedTool_init_eq)
qed

lemma sorted_attrs_wf:
  "wf_elem e \<Longrightarrow> OrderedTool_sorted_attrs e = Inr (spec_attrs_everywhere e)"
proof (induction e)
  case (Elem t a tx cs)
  then have "\<forall>c \<in> set cs. OrderedTool_sorted_attrs c = Inr (spec_attrs_everywhere c)"
    by simp
  then have "sum_mapM OrderedTool_sorted_attrs cs = Inr (map spec_attrs_everywhere cs)"
    by (rule sum_mapM_Inr)
  moreover from Elem.prems have "OrderedTool_init a = Inr (spec_attr_order a)"
    by (simp add: OrderedTool_init_spec)
  ultimately show ?case by simp
qed

lemma tag_key:
  "py_index OrderedTool_order (tag x)
   = (if tag x \<in> set OrderedTool_order then Inr (tag_rank x) else Inl ValueError)"
  by (simp add: py_index_eq tag_rank_def)

lemma sorted_children:
  "py_sorted (\<lambda>x. py_index OrderedTool_order (tag x)) cs
   = (if \<forall>c \<in> set cs. tag c \<in> set OrderedTool_order then Inr (sort_key tag_rank cs)
      else Inl ValueError)"
proof (cases "\<forall>c \<in> set cs. tag c \<in> set OrderedTool_order")
  case True
  then have "\<forall>x \<in> set cs. py_index OrderedTool_order (tag x) = Inr (tag_rank x)"
    by (simp add: tag_key)
  then have "py_sorted (\<lambda>x. py_index OrderedTool_order (tag x)) cs = Inr (sort_key tag_rank cs)"
    by (rule py_sorted_Inr)
  with True show ?thesis by simp
next
  case False
  then have "\<exists>x \<in> set cs. py_index OrderedTool_order (tag x) = Inl ValueError"
    by (auto simp: tag_key)
  moreover have "\<forall>y e'. py_index OrderedTool_order (tag y) = Inl e' \<longrightarrow> e' = ValueError"
    by (auto simp: tag_key split: if_splits)
  ultimately have "py_sorted (\<lambda>x. py_index OrderedTool_order (tag x)) cs = Inl ValueError"
    by (rule py_sorted_Inl)
  with False show ?thesis by simp
qed

lemma OrderedTool_sorted_eq:
  assumes "OrderedTool_sorted_attrs e = Inr new"
  shows "OrderedTool_sorted e
         = (if \<forall>c \<in> set (children new). tag c \<in> set OrderedTool_order
            then Inr (Elem (tag new) (attrib new) (etext new) (sort_key tag_rank (children new)))
            else Inl ValueError)"
  using assms by (simp add: OrderedTool_sorted_def sorted_children)

lemma sort_key_twice: "sort_key f (sort_key f xs) = sort_key f xs"
  by (rule sort_key_id_if_sorted) simp

lemma code_attr_order_idem: "code_attr_order (code_attr_order a) = code_attr_order a"
proof -
  let ?P = "\<lambda>a. fst a \<in> set OrderedTool_order_attr"
  let ?N = "\<lambda>a. fst a \<notin> set OrderedTool_order_attr"
  have p: "filter ?P (code_attr_order a) = sort_key attr_rank (filter ?P a)"
    by (simp add: code_attr_order_def filter_sort)
  have n: "filter ?N (code_attr_order a) = sort_key fst (filter ?N a)"
    by (simp add: code_attr_order_def filter_sort)
  show ?thesis
    by (simp add: code_attr_order_def [of "code_attr_order a"] p n sort_key_twice)
       (simp add: code_attr_order_def)
qed

lemma spec_attr_order_idem: "spec_attr_order (spec_attr_order a) = spec_attr_order a"
  using code_attr_order_idem [of a] by (simp add: code_attr_order_spec)

lemma mset_spec_attr_order: "mset (spec_attr_order a) = mset a"
  using mset_code_attr_order [of a] by (simp add: code_attr_order_spec)

lemma set_spec_attr_order: "set (spec_attr_order a) = set a"
  using mset_spec_attr_order [of a] by (metis set_mset_mset)

lemma length_spec_attr_order: "length (spec_attr_order a) = length a"
  using mset_spec_attr_order [of a] by (metis size_mset)

lemma distinct_spec_attr_order:
  "distinct (map fst a) \<Longrightarrow> distinct (map fst (spec_attr_order a))"
  using distinct_code_attr_order [of a] by (simp add: code_attr_order_spec)

lemma spec_attrs_everywhere_idem:
  "spec_attrs_everywhere (spec_attrs_everywhere e) = spec_attrs_everywhere e"
  by (induction e) (simp add: spec_attr_order_idem)

lemma wf_spec_attrs_everywhere: "wf_elem e \<Longrightarrow> wf_elem (spec_attrs_everywhere e)"
  by (induction e) (simp add: distinct_spec_attr_order)

lemma tag_spec_attrs_everywhere [simp]: "tag (spec_attrs_everywhere e) = tag e"
  by (cases e) simp

lemma erase_spec_attrs_everywhere: "erase_attrs (spec_attrs_everywhere e) = erase_attrs e"
  by (induction e) simp

lemma same_content_spec: "same_content e (spec_attrs_everywhere e)"
proof (induction e)
  case (Elem t a tx cs)
  then have "list_all2 same_content cs (map spec_attrs_everywhere cs)"
    by (simp add: list_all2_map2 list_all2_same)
  then show ?case by (simp add: set_spec_attr_order length_spec_attr_order)
qed

lemma OrderedTool_sorted_wf:
  assumes "wf_elem e"
  shows "OrderedTool_sorted e
         = (if \<forall>c \<in> set (children e). tag c \<in> set OrderedTool_order
            then Inr (Elem (tag e) (spec_attr_order (attrib e)) (etext e)
                       (sort_key tag_rank (map spec_attrs_everywhere (children e))))
            else Inl ValueError)"
proof -
  have "OrderedTool_sorted_attrs e = Inr (spec_attrs_everywhere e)"
    using assms by (rule sorted_attrs_wf)
  from OrderedTool_sorted_eq [OF this] show ?thesis
    by (cases e) simp
qed

lemma OrderedTool_sorted_fails:
  "(\<exists>err. OrderedTool_sorted e = Inl err) \<longleftrightarrow> (\<exists>c \<in> set (children e). tag c \<notin> set OrderedTool_order)"
proof -
  obtain new where new: "OrderedTool_sorted_attrs e = Inr new" "erase_attrs new = erase_attrs e"
    using sorted_attrs_total by blast
  from erase_attrs_sel [OF new(2)]
  have "map erase_attrs (children new) = map erase_attrs (children e)" by blast
  then have "map tag (children new) = map tag (children e)"
    by (rule map_erase_tags)
  then have "tag ` set (children new) = tag ` set (children e)"
    by (metis set_map)
  then have "(\<forall>c \<in> set (children new). tag c \<in> set OrderedTool_order)
             \<longleftrightarrow> (\<forall>c \<in> set (children e). tag c \<in> set OrderedTool_order)"
    by (metis (no_types, lifting) image_iff)
  then show ?thesis by (auto simp: OrderedTool_sorted_eq [OF new(1)])
qed

lemma sum_mapM_list_all2:
  "sum_mapM f xs = Inr ys \<Longrightarrow> list_all2 (\<lambda>x y. f x = Inr y) xs ys"
proof (induction xs arbitrary: ys)
  case Nil
  then show ?case by simp
next
  case (Cons x xs)
  show ?case
  proof (cases "f x")
    case (Inl e)
    with Cons.prems show ?thesis by simp
  next
    case fx: (Inr y)
    show ?thesis
    proof (cases "sum_mapM f xs")
      case (Inl e)
      with fx Cons.prems show ?thesis by simp
    next
      case (Inr zs)
      with fx Cons.prems have "ys = y # zs" by simp
      with fx Cons.IH [OF Inr] show ?thesis by simp
    qed
  qed
qed

lemma sorted_attrs_children:
  assumes "OrderedTool_sorted_attrs e = Inr new"
  shows "list_all2 (\<lambda>c c'. OrderedTool_sorted_attrs c = Inr c') (children e) (children new)"
proof (cases e)
  case (Elem t a tx cs)
  obtain a' where a': "OrderedTool_init a = Inr a'" by (simp add: OrderedTool_init_eq)
  show ?thesis
  proof (cases "sum_mapM OrderedTool_sorted_attrs cs")
    case (Inl err)
    with assms Elem a' show ?thesis by simp
  next
    case (Inr cs')
    with assms Elem a' have "new = Elem t a' tx cs'" by simp
    with sum_mapM_list_all2 [OF Inr] Elem show ?thesis by simp
  qed
qed

section \<open>The document assembler: comment texts\<close>







section \<open>The escape codec: sentinels and unsupported values\<close>

text \<open>
  Claim C2. Each of the three sentinel values survives encoding followed by decoding:
  \<^verbatim>\<open>None\<close>, \<^verbatim>\<open>True\<close> and \<^verbatim>\<open>False\<close> come back as themselves; and the boolean
  \<^verbatim>\<open>True\<close> is not encoded like the four-character string \<^verbatim>\<open>"True"\<close>.
\<close>

theorem sentinel_roundtrip:
  "map_sum id galaxy_unesc (galaxy_esc PyNone) = Inr PyNone
   \<and> map_sum id galaxy_unesc (galaxy_esc (PyBool True)) = Inr (PyBool True)
   \<and> map_sum id galaxy_unesc (galaxy_esc (PyBool False)) = Inr (PyBool False)
   \<and> galaxy_esc (PyBool True) \<noteq> galaxy_esc (PyStr ''True'')"
  by (simp add: mapped_def galaxy_unesc_def escaped_def py_replace.simps)

text \<open>
  Claim C7. A value that is not a string and is none of \<^verbatim>\<open>None\<close>, \<^verbatim>\<open>True\<close>,
  \<^verbatim>\<open>False\<close> makes \<^verbatim>\<open>galaxy_esc\<close> raise \<^verbatim>\<open>NotImplementedError\<close>; the integers 1 and 0
  are such values.
\<close>

theorem galaxy_esc_unsupported:
  "((\<forall>s. v \<noteq> PyStr s) \<and> v \<noteq> PyNone \<and> v \<noteq> PyBool True \<and> v \<noteq> PyBool False
      \<longrightarrow> galaxy_esc v = Inl NotImplementedError)
   \<and> galaxy_esc (PyInt 1) = Inl NotImplementedError
   \<and> galaxy_esc (PyInt 0) = Inl NotImplementedError"
  by (cases v) (auto simp: mapped_def)

theorem galaxy_esc_unsupported_witness:
  "(\<forall>s. PyList [PyBool True] \<noteq> PyStr s) \<and> PyList [PyBool True] \<noteq> PyNone
   \<and> PyList [PyBool True] \<noteq> PyBool True \<and> PyList [PyBool True] \<noteq> PyBool False
   \<and> galaxy_esc (PyList [PyBool True]) = Inl NotImplementedError"
  using galaxy_esc_unsupported [of "PyList [PyBool True]"] by simp
section \<open>The escape codec: round trip and sentinel collisions\<close>




text \<open>
  Claim C8, as stated: for every string \<open>s\<close>, \<^verbatim>\<open>galaxy_esc(s)\<close> is none of the three
  sentinel tokens. It fails at the string that spells a sentinel token: it holds no
  escaped character, so it is encoded as itself, exactly as \<^verbatim>\<open>None\<close> is.
\<close>

theorem sentinel_collision_counterexample:
  "galaxy_esc (PyStr ''__q2galaxy__::literal::None'') = Inr ''__q2galaxy__::literal::None''
   \<and> ''__q2galaxy__::literal::None'' \<in> set sentinel_tokens
   \<and> galaxy_esc (PyStr ''__q2galaxy__::literal::None'') = galaxy_esc PyNone"
  by (simp add: sentinel_tokens_def mapped_def escaped_def py_replace.simps)

text \<open>
  Claim C8, amended: for every string \<open>s\<close> that is not itself one of the three sentinel
  tokens, \<^verbatim>\<open>galaxy_esc(s)\<close> returns a string that is none of the three sentinel tokens.
\<close>

theorem sentinel_no_collision:
  "s \<notin> set sentinel_tokens \<Longrightarrow>
   \<exists>e. galaxy_esc (PyStr s) = Inr e \<and> e \<notin> set sentinel_tokens"
  using esc_all_sentinel [of s] by (auto simp: galaxy_esc_esc_all simp del: galaxy_esc.simps)

theorem sentinel_no_collision_witness:
  "''None,[1]'' \<notin> set sentinel_tokens
   \<and> (\<exists>e. galaxy_esc (PyStr ''None,[1]'') = Inr e \<and> e \<notin> set sentinel_tokens)"
proof -
  have h: "''None,[1]'' \<notin> set sentinel_tokens"
    by (simp add: sentinel_tokens_def mapped_def)
  from h sentinel_no_collision [OF h] show ?thesis by simp
qed

section \<open>The ordering engine: the properties\<close>

text \<open>
  Claim C3. Canonicalization is idempotent: when \<^verbatim>\<open>OrderedTool.sorted\<close> succeeds on a tree
  (attribute names unique within each element, as in every lxml tree) and returns \<open>t'\<close>,
  \<^verbatim>\<open>OrderedTool.sorted\<close> on \<open>t'\<close> succeeds and returns \<open>t'\<close> again.
\<close>

theorem canonicalize_idempotent:
  "wf_elem t \<Longrightarrow> OrderedTool_sorted t = Inr t' \<Longrightarrow> OrderedTool_sorted t' = Inr t'"
proof -
  assume wf: "wf_elem t" and s: "OrderedTool_sorted t = Inr t'"
  let ?cs = "sort_key tag_rank (map spec_attrs_everywhere (children t))"
  from s have tags: "\<forall>c \<in> set (children t). tag c \<in> set OrderedTool_order"
    and t': "t' = Elem (tag t) (spec_attr_order (attrib t)) (etext t) ?cs"
    by (auto simp: OrderedTool_sorted_wf [OF wf] split: if_splits)
  from wf have wf_parts: "distinct (map fst (attrib t))" "\<forall>c \<in> set (children t). wf_elem c"
    by (cases t; simp)+
  have wf': "wf_elem t'"
    using wf_parts by (simp add: t' distinct_spec_attr_order wf_spec_attrs_everywhere)
  have tags': "\<forall>c \<in> set (children t'). tag c \<in> set OrderedTool_order"
    using tags by (simp add: t')
  have "map spec_attrs_everywhere ?cs = ?cs"
    by (rule map_idI) (auto simp: spec_attrs_everywhere_idem)
  then have c: "sort_key tag_rank (map spec_attrs_everywhere (children t')) = children t'"
    by (simp add: t' sort_key_twice)
  have a: "spec_attr_order (attrib t') = attrib t'"
    by (simp add: t' spec_attr_order_idem)
  from tags' have "OrderedTool_sorted t'
        = Inr (Elem (tag t') (spec_attr_order (attrib t')) (etext t')
                (sort_key tag_rank (map spec_attrs_everywhere (children t'))))"
    by (simp add: OrderedTool_sorted_wf [OF wf'])
  then show ?thesis by (simp add: a c)
qed

theorem canonicalize_idempotent_witness:
  "wf_elem (Elem ''tool'' [(''id'', ''t''), (''name'', ''T'')] None
              [Elem ''outputs'' [] None [], Elem ''description'' [] (Some ''Do a thing'') []])
   \<and> OrderedTool_sorted (Elem ''tool'' [(''id'', ''t''), (''name'', ''T'')] None
              [Elem ''outputs'' [] None [], Elem ''description'' [] (Some ''Do a thing'') []])
       = Inr (Elem ''tool'' [(''name'', ''T''), (''id'', ''t'')] None
              [Elem ''description'' [] (Some ''Do a thing'') [], Elem ''outputs'' [] None []])
   \<and> OrderedTool_sorted (Elem ''tool'' [(''name'', ''T''), (''id'', ''t'')] None
              [Elem ''description'' [] (Some ''Do a thing'') [], Elem ''outputs'' [] None []])
       = Inr (Elem ''tool'' [(''name'', ''T''), (''id'', ''t'')] None
              [Elem ''description'' [] (Some ''Do a thing'') [], Elem ''outputs'' [] None []])"
proof -
  let ?t = "Elem ''tool'' [(''id'', ''t''), (''name'', ''T'')] None
              [Elem ''outputs'' [] None [], Elem ''description'' [] (Some ''Do a thing'') []]"
  let ?t' = "Elem ''tool'' [(''name'', ''T''), (''id'', ''t'')] None
              [Elem ''description'' [] (Some ''Do a thing'') [], Elem ''outputs'' [] None []]"
  have wf: "wf_elem ?t" by simp
  have s: "OrderedTool_sorted ?t = Inr ?t'"
    by (simp add: OrderedTool_sorted_wf [OF wf] OrderedTool_order_def tag_rank_def list_rank_def
        spec_attr_order_def priority_group_def remainder_group_def OrderedTool_order_attr_def)
  from wf s canonicalize_idempotent [OF wf s] show ?thesis by simp
qed

text \<open>
  Claim C4. At every node of the tree the attributes come out in the specified order: those
  whose names are in the priority list, in the order of that list, then the others sorted
  by name. \<^verbatim>\<open>_sorted_attrs\<close> returns the tree with exactly this attribute order at every
  node; \<^verbatim>\<open>sorted\<close> gives the root this order and has as children the children so
  ordered. In particular the attributes \<open>help\<close>, \<open>name\<close>, \<open>zzz\<close>, \<open>argument\<close> come out as
  \<open>name\<close>, \<open>argument\<close>, \<open>help\<close>, \<open>zzz\<close>.
\<close>

theorem attribute_order:
  "(wf_elem e \<longrightarrow>
      OrderedTool_sorted_attrs e = Inr (spec_attrs_everywhere e)
      \<and> (\<forall>e'. OrderedTool_sorted e = Inr e' \<longrightarrow>
             attrib e' = spec_attr_order (attrib e)
             \<and> mset (children e') = mset (map spec_attrs_everywhere (children e))))
   \<and> OrderedTool_init [(''help'', h), (''name'', n), (''zzz'', z), (''argument'', a)]
       = Inr [(''name'', n), (''argument'', a), (''help'', h), (''zzz'', z)]"
proof (intro conjI impI allI)
  assume wf: "wf_elem e"
  then show "OrderedTool_sorted_attrs e = Inr (spec_attrs_everywhere e)"
    by (rule sorted_attrs_wf)
  fix e' assume "OrderedTool_sorted e = Inr e'"
  then have "e' = Elem (tag e) (spec_attr_order (attrib e)) (etext e)
                    (sort_key tag_rank (map spec_attrs_everywhere (children e)))"
    by (auto simp: OrderedTool_sorted_wf [OF wf] split: if_splits)
  then show "attrib e' = spec_attr_order (attrib e)"
    and "mset (children e') = mset (map spec_attrs_everywhere (children e))"
    by simp_all
next
  show "OrderedTool_init [(''help'', h), (''name'', n), (''zzz'', z), (''argument'', a)]
       = Inr [(''name'', n), (''argument'', a), (''help'', h), (''zzz'', z)]"
    by (simp add: OrderedTool_init_spec spec_attr_order_def priority_group_def
        remainder_group_def OrderedTool_order_attr_def)
qed

theorem attribute_order_witness:
  "wf_elem (Elem ''param'' [(''help'', ''h''), (''name'', ''n''), (''zzz'', ''z''), (''argument'', ''a'')] None
             [Elem ''option'' [(''selected'', ''s''), (''value'', ''v''), (''a'', ''1'')] None []])
   \<and> OrderedTool_sorted_attrs
        (Elem ''param'' [(''help'', ''h''), (''name'', ''n''), (''zzz'', ''z''), (''argument'', ''a'')] None
             [Elem ''option'' [(''selected'', ''s''), (''value'', ''v''), (''a'', ''1'')] None []])
      = Inr (Elem ''param'' [(''name'', ''n''), (''argument'', ''a''), (''help'', ''h''), (''zzz'', ''z'')] None
             [Elem ''option'' [(''value'', ''v''), (''a'', ''1''), (''selected'', ''s'')] None []])"
proof -
  let ?e = "Elem ''param'' [(''help'', ''h''), (''name'', ''n''), (''zzz'', ''z''), (''argument'', ''a'')] None
             [Elem ''option'' [(''selected'', ''s''), (''value'', ''v''), (''a'', ''1'')] None []]"
  have wf: "wf_elem ?e" by simp
  from attribute_order [of ?e] wf
  have "OrderedTool_sorted_attrs ?e = Inr (spec_attrs_everywhere ?e)" by blast
  with wf show ?thesis
    by (simp add: spec_attr_order_def priority_group_def remainder_group_def
        OrderedTool_order_attr_def)
qed

text \<open>
  Claim C5. \<^verbatim>\<open>OrderedTool.sorted\<close> sorts the children of the root by the position of their
  tag in the tag-priority list: the children of the result are the attribute-sorted
  children of the input, stably sorted by tag rank. Below the root nothing is re-sorted:
  with the attributes erased, every child subtree is the same as in the input. The example
  has root children \<open>outputs\<close>, \<open>description\<close>, \<open>code\<close>, which come out as
  \<open>description\<close>, \<open>code\<close>, \<open>outputs\<close>, while the children \<open>outputs\<close>, \<open>code\<close> of the
  nested element keep their order.
\<close>

theorem root_children_order:
  "(OrderedTool_sorted e = Inr e' \<longrightarrow>
      sorted (map tag_rank (children e'))
      \<and> (\<exists>cs. list_all2 (\<lambda>c c'. OrderedTool_sorted_attrs c = Inr c') (children e) cs
               \<and> children e' = sort_key tag_rank cs
               \<and> map erase_attrs cs = map erase_attrs (children e)))
   \<and> OrderedTool_sorted
        (Elem ''tool'' [] None
           [Elem ''outputs'' [] None [Elem ''outputs'' [] None [], Elem ''code'' [] None []],
            Elem ''description'' [] None [],
            Elem ''code'' [] None []])
      = Inr (Elem ''tool'' [] None
           [Elem ''description'' [] None [],
            Elem ''code'' [] None [],
            Elem ''outputs'' [] None [Elem ''outputs'' [] None [], Elem ''code'' [] None []]])"
proof (intro conjI impI)
  assume s: "OrderedTool_sorted e = Inr e'"
  obtain new where new: "OrderedTool_sorted_attrs e = Inr new" "erase_attrs new = erase_attrs e"
    using sorted_attrs_total by blast
  from s have e': "children e' = sort_key tag_rank (children new)"
    by (auto simp: OrderedTool_sorted_eq [OF new(1)] split: if_splits)
  then show "sorted (map tag_rank (children e'))" by simp
  from erase_attrs_sel [OF new(2)]
  have "map erase_attrs (children new) = map erase_attrs (children e)" by blast
  with e' sorted_attrs_children [OF new(1)]
  show "\<exists>cs. list_all2 (\<lambda>c c'. OrderedTool_sorted_attrs c = Inr c') (children e) cs
               \<and> children e' = sort_key tag_rank cs
               \<and> map erase_attrs cs = map erase_attrs (children e)"
    by blast
next
  let ?e = "Elem ''tool'' [] None
           [Elem ''outputs'' [] None [Elem ''outputs'' [] None [], Elem ''code'' [] None []],
            Elem ''description'' [] None [],
            Elem ''code'' [] None []]"
  have "wf_elem ?e" by simp
  from OrderedTool_sorted_wf [OF this]
  show "OrderedTool_sorted ?e = Inr (Elem ''tool'' [] None
           [Elem ''description'' [] None [],
            Elem ''code'' [] None [],
            Elem ''outputs'' [] None [Elem ''outputs'' [] None [], Elem ''code'' [] None []]])"
    by (simp add: OrderedTool_order_def tag_rank_def list_rank_def spec_attr_order_def
        priority_group_def remainder_group_def)
qed

theorem root_children_order_witness:
  "OrderedTool_sorted (Elem ''tool'' [] None
      [Elem ''outputs'' [] None [], Elem ''description'' [] None [], Elem ''code'' [] None []])
     = Inr (Elem ''tool'' [] None
      [Elem ''description'' [] None [], Elem ''code'' [] None [], Elem ''outputs'' [] None []])
   \<and> sorted (map tag_rank
      [Elem ''description'' [] None [], Elem ''code'' [] None [], Elem ''outputs'' [] None []])"
proof -
  let ?e = "Elem ''tool'' [] None
      [Elem ''outputs'' [] None [], Elem ''description'' [] None [], Elem ''code'' [] None []]"
  let ?e' = "Elem ''tool'' [] None
      [Elem ''description'' [] None [], Elem ''code'' [] None [], Elem ''outputs'' [] None []]"
  have wf: "wf_elem ?e" by simp
  have s: "OrderedTool_sorted ?e = Inr ?e'"
    by (simp add: OrderedTool_sorted_wf [OF wf] OrderedTool_order_def tag_rank_def list_rank_def
        spec_attr_order_def priority_group_def remainder_group_def)
  from root_children_order [of ?e ?e'] s have "sorted (map tag_rank (children ?e'))" by blast
  with s show ?thesis by simp
qed

text \<open>
  Claim C6. \<^verbatim>\<open>OrderedTool.sorted\<close> fails exactly when some child of the root has a tag
  that is not in the tag-priority list, and then with the \<^verbatim>\<open>ValueError\<close> of the lookup
  (the tag \<open>foobar\<close> is an example). An attribute name outside the attribute-priority list
  is never fatal: \<^verbatim>\<open>OrderedTool.__init__\<close> and \<^verbatim>\<open>_sorted_attrs\<close> always return, and such
  an attribute is in the group sorted by name, which follows the priority group.
\<close>

theorem unknown_tag_fatal:
  "((\<exists>err. OrderedTool_sorted e = Inl err)
      \<longleftrightarrow> (\<exists>c \<in> set (children e). tag c \<notin> set OrderedTool_order))
   \<and> (OrderedTool_sorted e = Inl err \<longrightarrow> err = ValueError)
   \<and> (\<exists>r. OrderedTool_init items = Inr r)
   \<and> (\<exists>new. OrderedTool_sorted_attrs e = Inr new)
   \<and> (distinct (map fst items) \<and> (k, v) \<in> set items \<and> k \<notin> set OrderedTool_order_attr \<longrightarrow>
        OrderedTool_init items = Inr (priority_group items @ remainder_group items)
        \<and> (k, v) \<in> set (remainder_group items))
   \<and> OrderedTool_sorted (Elem ''tool'' [] None [Elem ''foobar'' [] None []]) = Inl ValueError"
proof (intro conjI impI)
  show "(\<exists>err. OrderedTool_sorted e = Inl err)
      \<longleftrightarrow> (\<exists>c \<in> set (children e). tag c \<notin> set OrderedTool_order)"
    by (rule OrderedTool_sorted_fails)
  obtain new where new: "OrderedTool_sorted_attrs e = Inr new"
    using sorted_attrs_total by blast
  then show "\<exists>new. OrderedTool_sorted_attrs e = Inr new" ..
  show "\<exists>r. OrderedTool_init items = Inr r" by (simp add: OrderedTool_init_eq)
  show "err = ValueError" if "OrderedTool_sorted e = Inl err"
    using that by (simp add: OrderedTool_sorted_eq [OF new] split: if_splits)
  have "wf_elem (Elem ''tool'' [] None [Elem ''foobar'' [] None []])" by simp
  from OrderedTool_sorted_wf [OF this]
  show "OrderedTool_sorted (Elem ''tool'' [] None [Elem ''foobar'' [] None []]) = Inl ValueError"
    by (simp add: OrderedTool_order_def)
next
  assume h: "distinct (map fst items) \<and> (k, v) \<in> set items \<and> k \<notin> set OrderedTool_order_attr"
  then show "OrderedTool_init items = Inr (priority_group items @ remainder_group items)"
    by (simp add: OrderedTool_init_spec spec_attr_order_def)
  from h show "(k, v) \<in> set (remainder_group items)"
    by (simp add: remainder_group_def)
qed

theorem unknown_tag_fatal_witness:
  "distinct (map fst [(''zzz'', ''1''), (''name'', ''n'')])
   \<and> (''zzz'', ''1'') \<in> set [(''zzz'', ''1''), (''name'', ''n'')]
   \<and> ''zzz'' \<notin> set OrderedTool_order_attr
   \<and> OrderedTool_init [(''zzz'', ''1''), (''name'', ''n'')] = Inr [(''name'', ''n''), (''zzz'', ''1'')]
   \<and> (''zzz'', ''1'') \<in> set (remainder_group [(''zzz'', ''1''), (''name'', ''n'')])
   \<and> tag (Elem ''foobar'' [] None []) \<notin> set OrderedTool_order
   \<and> (\<exists>err. OrderedTool_sorted (Elem ''tool'' [] None [Elem ''foobar'' [] None []]) = Inl err)"
proof -
  let ?items = "[(''zzz'', ''1''), (''name'', ''n'')]"
  let ?e = "Elem ''tool'' [] None [Elem ''foobar'' [] None []]"
  have h: "distinct (map fst ?items) \<and> (''zzz'', ''1'') \<in> set ?items
           \<and> ''zzz'' \<notin> set OrderedTool_order_attr"
    by (simp add: OrderedTool_order_attr_def)
  have g: "\<exists>c \<in> set (children ?e). tag c \<notin> set OrderedTool_order"
    by (simp add: OrderedTool_order_def)
  from unknown_tag_fatal [of ?e _ ?items "''zzz''" "''1''"] h g
  have "OrderedTool_init ?items = Inr (priority_group ?items @ remainder_group ?items)"
    and "(''zzz'', ''1'') \<in> set (remainder_group ?items)"
    and "\<exists>err. OrderedTool_sorted ?e = Inl err"
    by blast+
  with h g show ?thesis
    by (simp add: priority_group_def remainder_group_def OrderedTool_order_attr_def)
qed

text \<open>
  Claim C10. Canonicalization only reorders: when \<^verbatim>\<open>OrderedTool.sorted\<close> succeeds, the root
  of the result has the tag, the text and the attribute name/value pairs of the input
  root, and its children are, as a multiset, the children of the input, each with the same
  tag, text and attribute pairs at every node and the same children in the same order.
\<close>

theorem content_preserved:
  "wf_elem e \<Longrightarrow> OrderedTool_sorted e = Inr e' \<Longrightarrow>
   tag e' = tag e \<and> etext e' = etext e \<and> set (attrib e') = set (attrib e)
   \<and> length (attrib e') = length (attrib e)
   \<and> (\<exists>cs. list_all2 same_content (children e) cs \<and> mset (children e') = mset cs)"
proof -
  assume wf: "wf_elem e" and s: "OrderedTool_sorted e = Inr e'"
  from s have e': "e' = Elem (tag e) (spec_attr_order (attrib e)) (etext e)
                    (sort_key tag_rank (map spec_attrs_everywhere (children e)))"
    by (auto simp: OrderedTool_sorted_wf [OF wf] split: if_splits)
  have "list_all2 same_content (children e) (map spec_attrs_everywhere (children e))"
    by (simp add: list_all2_map2 list_all2_same same_content_spec)
  moreover have "mset (children e') = mset (map spec_attrs_everywhere (children e))"
    by (simp add: e')
  ultimately have "\<exists>cs. list_all2 same_content (children e) cs \<and> mset (children e') = mset cs"
    by blast
  then show ?thesis
    by (simp add: e' set_spec_attr_order length_spec_attr_order)
qed

theorem content_preserved_witness:
  "wf_elem (Elem ''tool'' [(''id'', ''t''), (''name'', ''T'')] None
              [Elem ''outputs'' [(''b'', ''1''), (''a'', ''2'')] None [],
               Elem ''description'' [] (Some ''Do a thing'') []])
   \<and> OrderedTool_sorted (Elem ''tool'' [(''id'', ''t''), (''name'', ''T'')] None
              [Elem ''outputs'' [(''b'', ''1''), (''a'', ''2'')] None [],
               Elem ''description'' [] (Some ''Do a thing'') []])
       = Inr (Elem ''tool'' [(''name'', ''T''), (''id'', ''t'')] None
              [Elem ''description'' [] (Some ''Do a thing'') [],
               Elem ''outputs'' [(''a'', ''2''), (''b'', ''1'')] None []])
   \<and> (\<exists>cs. list_all2 same_content
               [Elem ''outputs'' [(''b'', ''1''), (''a'', ''2'')] None [],
                Elem ''description'' [] (Some ''Do a thing'') []] cs
             \<and> mset [Elem ''description'' [] (Some ''Do a thing'') [],
                      Elem ''outputs'' [(''a'', ''2''), (''b'', ''1'')] None []] = mset cs)"
proof -
  let ?e = "Elem ''tool'' [(''id'', ''t''), (''name'', ''T'')] None
              [Elem ''outputs'' [(''b'', ''1''), (''a'', ''2'')] None [],
               Elem ''description'' [] (Some ''Do a thing'') []]"
  let ?e' = "Elem ''tool'' [(''name'', ''T''), (''id'', ''t'')] None
              [Elem ''description'' [] (Some ''Do a thing'') [],
               Elem ''outputs'' [(''a'', ''2''), (''b'', ''1'')] None []]"
  have wf: "wf_elem ?e" by simp
  have s: "OrderedTool_sorted ?e = Inr ?e'"
    by (simp add: OrderedTool_sorted_wf [OF wf] OrderedTool_order_def tag_rank_def list_rank_def
        spec_attr_order_def priority_group_def remainder_group_def OrderedTool_order_attr_def)
  from content_preserved [OF wf s] wf s show ?thesis by simp
qed

section \<open>The document assembler: the written document\<close>



end
